theory Spec2Isabelle
  imports Main "HOL-Library.Word" "HOL-Library.Multiset"
begin

section \<open>Data model\<close>

text \<open>
  The load balancer keeps a process-wide pool \<open>servers\<close> of backends. A Go run-time
  panic (an index out of range, a method called on a nil interface, an integer division
  by zero) is a value of type \<open>panic\<close>; every operation that can panic returns
  \<open>panic + 'a\<close> together with the pool as the panic left it, because the writes made
  before the panic stay in the shared pool (the HTTP server recovers a panicking handler
  and goes on serving with that pool).

  Go's \<open>int\<close> and \<open>uint64\<close> are 64-bit words; \<open>int\<close> values are compared through
  \<open>sint\<close>. The slice \<open>backends\<close> holds pointers to distinct backends, none of them
  nil, as \<open>main\<close> builds it, so the slice is a list of backend records. The mutex and
  the proxy object of a backend are not part of the sequential model: what a proxy does
  with a request is a parameter of the request handler below.
\<close>

datatype panic = IndexOutOfRange int nat | NilDereference | DivideByZero

record Backend =
  URL :: string
  Alive :: bool
  capacity :: "64 word"
  flow :: "64 word"

record Servers =
  backends :: "Backend list"
  current :: "64 word"

definition SetAlive :: "Backend \<Rightarrow> bool \<Rightarrow> Backend" where
  "SetAlive b alive = b\<lparr>Alive := alive\<rparr>"

definition IsAlive :: "Backend \<Rightarrow> bool" where
  "IsAlive b = Alive b"

text \<open>\<open>free = b.capacity - int(b.flow)\<close>: the conversion keeps the 64 bits and the
  subtraction wraps.\<close>

definition Free :: "Backend \<Rightarrow> 64 word" where
  "Free b = capacity b - flow b"

text \<open>\<open>xs[i]\<close> on a slice: a panic outside \<open>0 \<le> i < len(xs)\<close>.\<close>

definition index :: "'a list \<Rightarrow> int \<Rightarrow> panic + 'a" where
  "index xs i =
     (if 0 \<le> i \<and> i < int (length xs) then Inr (xs ! nat i)
      else Inl (IndexOutOfRange i (length xs)))"

section \<open>Pool operations\<close>

subsection \<open>AddBackend\<close>

text \<open>
  The loop condition reads \<open>s.backends[idx]\<close> and \<open>s.backends[idx-1]\<close> first and
  compares \<open>idx\<close> with 0 last; the body swaps the two entries and leaves \<open>idx\<close> as it
  is. After a swap the strict comparison of the two capacities is false, which is the
  measure of the termination proof.
\<close>

function AddBackend_loop :: "Backend list \<Rightarrow> int \<Rightarrow> (panic + unit) \<times> Backend list" where
  "AddBackend_loop bs idx =
     (case index bs idx of
        Inl e \<Rightarrow> (Inl e, bs)
      | Inr x \<Rightarrow>
          (case index bs (idx - 1) of
             Inl e \<Rightarrow> (Inl e, bs)
           | Inr y \<Rightarrow>
               if sint (capacity x) > sint (capacity y) \<and> idx \<noteq> 0
               then AddBackend_loop (bs[nat (idx - 1) := x, nat idx := y]) idx
               else (Inr (), bs)))"
  by pat_completeness auto
termination
proof (relation "measure (\<lambda>(bs, idx).
    case index bs idx of
      Inl e \<Rightarrow> 0
    | Inr x \<Rightarrow> (case index bs (idx - 1) of
                  Inl e \<Rightarrow> 0
                | Inr y \<Rightarrow> if sint (capacity x) > sint (capacity y) then 1 else 0))")
  show "wf (measure (\<lambda>(bs, idx).
    case index bs idx of
      Inl e \<Rightarrow> 0
    | Inr x \<Rightarrow> (case index bs (idx - 1) of
                  Inl e \<Rightarrow> 0
                | Inr y \<Rightarrow> if sint (capacity x) > sint (capacity y) then (1::nat) else 0)))"
    by simp
next
  fix bs :: "Backend list" and idx :: int and x y :: Backend
  assume ix: "index bs idx = Inr x" and iy: "index bs (idx - 1) = Inr y"
    and c: "sint (capacity y) < sint (capacity x) \<and> idx \<noteq> 0"
  from ix have r1: "0 \<le> idx" "idx < int (length bs)" and x: "x = bs ! nat idx"
    by (auto simp: index_def split: if_splits)
  from iy have r2: "0 \<le> idx - 1" and y: "y = bs ! nat (idx - 1)"
    by (auto simp: index_def split: if_splits)
  have ne: "nat (idx - 1) \<noteq> nat idx" using r2 by linarith
  have l1: "nat idx < length bs" using r1 by linarith
  have l2: "nat (idx - 1) < length bs" using r1 r2 by linarith
  have n1: "index (bs[nat (idx - 1) := x, nat idx := y]) idx = Inr y"
    using r1 l1 by (simp add: index_def)
  have n2: "index (bs[nat (idx - 1) := x, nat idx := y]) (idx - 1) = Inr x"
    using r1 r2 l2 ne by (simp add: index_def)
  show "((bs[nat (idx - 1) := x, nat idx := y], idx), (bs, idx)) \<in> measure (\<lambda>(bs, idx).
    case index bs idx of
      Inl e \<Rightarrow> 0
    | Inr x \<Rightarrow> (case index bs (idx - 1) of
                  Inl e \<Rightarrow> 0
                | Inr y \<Rightarrow> if sint (capacity x) > sint (capacity y) then 1 else 0))"
    using c by (simp add: n1 n2 ix iy)
qed

text \<open>\<open>append\<close>, then \<open>idx := len(s.backends)\<close> (the length after the append), then
  the loop.\<close>

definition AddBackend :: "Servers \<Rightarrow> Backend \<Rightarrow> (panic + unit) \<times> Servers" where
  "AddBackend s backend =
     (let bs = backends s @ [backend];
          idx = int (length bs);
          (r, bs') = AddBackend_loop bs idx
      in (r, s\<lparr>backends := bs'\<rparr>))"

subsection \<open>NextIndex\<close>

text \<open>The cursor is incremented (wrapping at 64 bits) before the remainder is taken, so
  the increment stays when the remainder panics on an empty pool.\<close>

definition NextIndex :: "Servers \<Rightarrow> (panic + int) \<times> Servers" where
  "NextIndex s =
     (let c = current s + 1;
          s' = s\<lparr>current := c\<rparr>
      in if length (backends s) = 0 then (Inl DivideByZero, s')
         else (Inr (int (unat c mod length (backends s))), s'))"

subsection \<open>MarkBackendStatus\<close>

text \<open>The range loop visits every member and sets the flag of each one whose URL string
  equals the given one; it does not stop at the first match.\<close>

definition MarkBackendStatus :: "Servers \<Rightarrow> string \<Rightarrow> bool \<Rightarrow> Servers" where
  "MarkBackendStatus s backendUrl alive =
     s\<lparr>backends := map (\<lambda>backend. if URL backend = backendUrl then SetAlive backend alive
                                   else backend) (backends s)\<rparr>"

subsection \<open>Tidy\<close>

text \<open>
  \<open>for ; s.backends[idx].Free() > s.backends[idx+1].Free() && idx+1 < l; idx--\<close>:
  both index expressions are evaluated before the bound \<open>idx+1 < l\<close> is looked at, and
  \<open>idx\<close> moves towards the front after each swap.
\<close>

function Tidy_loop :: "nat \<Rightarrow> Backend list \<Rightarrow> int \<Rightarrow> (panic + unit) \<times> Backend list" where
  "Tidy_loop l bs idx =
     (case index bs idx of
        Inl e \<Rightarrow> (Inl e, bs)
      | Inr x \<Rightarrow>
          (case index bs (idx + 1) of
             Inl e \<Rightarrow> (Inl e, bs)
           | Inr y \<Rightarrow>
               if sint (Free x) > sint (Free y) \<and> idx + 1 < int l
               then Tidy_loop l (bs[nat idx := y, nat (idx + 1) := x]) (idx - 1)
               else (Inr (), bs)))"
  by pat_completeness auto
termination
proof (relation "measure (\<lambda>(l, bs, idx). nat (idx + 1))")
  show "wf (measure (\<lambda>(l, bs, idx). nat (idx + 1)))" by simp
next
  fix l :: nat and bs :: "Backend list" and idx :: int and x y :: Backend
  assume "index bs idx = Inr x"
  then have "0 \<le> idx" by (auto simp: index_def split: if_splits)
  then show "((l, bs[nat idx := y, nat (idx + 1) := x], idx - 1), (l, bs, idx))
      \<in> measure (\<lambda>(l, bs, idx). nat (idx + 1))"
    by simp
qed

definition Tidy :: "Servers \<Rightarrow> int \<Rightarrow> (panic + unit) \<times> Servers" where
  "Tidy s idx =
     (let l = length (backends s);
          (r, bs') = Tidy_loop l (backends s) idx
      in (r, s\<lparr>backends := bs'\<rparr>))"

subsection \<open>GetNextBackend\<close>

text \<open>\<open>for !s.backends[next].IsAlive() { next++ }\<close>: the scan has no bound of its own;
  it ends at the first alive member or with the panic of the index expression.\<close>

function GetNextBackend_scan :: "Backend list \<Rightarrow> nat \<Rightarrow> panic + nat" where
  "GetNextBackend_scan bs next =
     (case index bs (int next) of
        Inl e \<Rightarrow> Inl e
      | Inr b \<Rightarrow> if \<not> IsAlive b then GetNextBackend_scan bs (next + 1) else Inr next)"
  by pat_completeness auto
termination
proof (relation "measure (\<lambda>(bs, next). length bs - next)")
  show "wf (measure (\<lambda>(bs, next). length bs - next))" by simp
next
  fix bs :: "Backend list" and "next" :: nat and b :: Backend
  assume "index bs (int next) = Inr b"
  then have "next < length bs" by (auto simp: index_def split: if_splits)
  then show "((bs, next + 1), (bs, next)) \<in> measure (\<lambda>(bs, next). length bs - next)"
    by simp
qed

text \<open>
  The result is a pointer, \<open>None\<close> standing for nil. The deferred \<open>Tidy(next)\<close> runs
  after the cursor store and after the result \<open>s.backends[next]\<close> has been evaluated; a
  panic of the deferred call is a panic of \<open>GetNextBackend\<close>.
\<close>

definition GetNextBackend :: "Servers \<Rightarrow> (panic + Backend option) \<times> Servers" where
  "GetNextBackend s =
     (case GetNextBackend_scan (backends s) 0 of
        Inl e \<Rightarrow> (Inl e, s)
      | Inr next \<Rightarrow>
          (let s1 = (if next \<noteq> 0 then s\<lparr>current := of_nat next\<rparr> else s)
           in case index (backends s1) (int next) of
                Inl e \<Rightarrow> (Inl e, s1)
              | Inr b \<Rightarrow>
                  (case Tidy s1 (int next) of
                     (Inl e, s2) \<Rightarrow> (Inl e, s2)
                   | (Inr u, s2) \<Rightarrow> (Inr (Some b), s2))))"

subsection \<open>HealthCheck\<close>

text \<open>
  The TCP dial is the probe collaborator: \<open>dial i u\<close> tells whether the \<open>i\<close>-th probe of
  a cycle, to the host of \<open>u\<close>, connects. \<open>isBackendAlive\<close> executes
  \<open>defer conn.Close()\<close> before it looks at \<open>err\<close>; when the dial failed \<open>conn\<close> is
  the nil interface, and evaluating a method of a nil interface value panics.
\<close>

definition isBackendAlive :: "(nat \<Rightarrow> string \<Rightarrow> bool) \<Rightarrow> nat \<Rightarrow> string \<Rightarrow> panic + bool" where
  "isBackendAlive dial i u = (if dial i u then Inr True else Inl NilDereference)"

fun HealthCheck_loop ::
  "(nat \<Rightarrow> string \<Rightarrow> bool) \<Rightarrow> nat \<Rightarrow> Backend list \<Rightarrow> (panic + unit) \<times> Backend list" where
  "HealthCheck_loop dial i [] = (Inr (), [])"
| "HealthCheck_loop dial i (b # bs) =
     (case isBackendAlive dial i (URL b) of
        Inl e \<Rightarrow> (Inl e, b # bs)
      | Inr alive \<Rightarrow>
          (case HealthCheck_loop dial (i + 1) bs of
             (r, bs') \<Rightarrow> (r, SetAlive b alive # bs')))"

definition HealthCheck :: "(nat \<Rightarrow> string \<Rightarrow> bool) \<Rightarrow> Servers \<Rightarrow> (panic + unit) \<times> Servers" where
  "HealthCheck dial s =
     (case HealthCheck_loop dial 0 (backends s) of
        (r, bs') \<Rightarrow> (r, s\<lparr>backends := bs'\<rparr>))"

section \<open>Request handling\<close>

text \<open>
  A request carries its counters in its context, a chain of key/value pairs read by key;
  keys and values are interface values, so a key is equal to the string
  \<open>"Attempts"\<close> only if it is that string, and a value is an attempt count only if
  it is an \<open>int\<close>.
\<close>

datatype ckey = StrKey string | OtherKey nat

datatype cval = IntV "64 word" | OtherV

type_synonym ctx = "ckey \<rightharpoonup> cval"

definition GetAttemptsFromContext :: "ctx \<Rightarrow> 64 word" where
  "GetAttemptsFromContext r =
     (case r (StrKey ''Attempts'') of Some (IntV attempts) \<Rightarrow> attempts | _ \<Rightarrow> 1)"

definition GetRetryFromContext :: "ctx \<Rightarrow> 64 word" where
  "GetRetryFromContext r =
     (case r (StrKey ''Retry'') of Some (IntV retries) \<Rightarrow> retries | _ \<Rightarrow> 0)"

text \<open>
  What the source leaves open is collected in an environment: the keys \<open>Retry\<close> and
  \<open>Attempts\<close> under which the error handler stores the counters (the identifiers are
  used but declared nowhere in the repository), and the proxy collaborator:
  \<open>forward k u\<close> tells whether the \<open>k\<close>-th forwarding of the request, to the backend
  at \<open>u\<close>, succeeds. A forwarding that fails calls the error handler of that backend's
  proxy.
\<close>

record env =
  Retry :: ckey
  Attempts :: ckey
  forward :: "nat \<Rightarrow> string \<Rightarrow> bool"

datatype outcome = Proxied string | ServiceUnavailable | Panicked panic | OutOfFuel

text \<open>What a request does on its way: each forwarding with the counters the request
  carries at that moment (URL, retries, attempts), and each backoff in milliseconds.\<close>

datatype event = Dispatch string "64 word" "64 word" | Backoff nat

text \<open>The number of forwardings in a trace.\<close>

fun dispatches :: "event list \<Rightarrow> nat" where
  "dispatches [] = 0"
| "dispatches (Dispatch u retries attempts # evs) = Suc (dispatches evs)"
| "dispatches (Backoff ms # evs) = dispatches evs"

definition emit :: "event \<Rightarrow> outcome \<times> event list \<times> Servers \<Rightarrow> outcome \<times> event list \<times> Servers" where
  "emit ev res = (case res of (out, evs, s) \<Rightarrow> (out, ev # evs, s))"

text \<open>
  \<open>lb\<close>, the proxy's \<open>ServeHTTP\<close> and the error handler call each other, and nothing
  in the source bounds the depth of these calls. The fuel counts the forwardings a run
  may still make: a run that needs more ends in \<open>OutOfFuel\<close>.
\<close>

fun lb :: "env \<Rightarrow> nat \<Rightarrow> nat \<Rightarrow> ctx \<Rightarrow> Servers \<Rightarrow> outcome \<times> event list \<times> Servers"
  and ServeHTTP :: "env \<Rightarrow> nat \<Rightarrow> nat \<Rightarrow> string \<Rightarrow> ctx \<Rightarrow> Servers \<Rightarrow> outcome \<times> event list \<times> Servers"
  and DefaultErrorHandler :: "env \<Rightarrow> nat \<Rightarrow> nat \<Rightarrow> string \<Rightarrow> ctx \<Rightarrow> Servers \<Rightarrow> outcome \<times> event list \<times> Servers"
where
  "lb E fuel k r s =
     (let attempts = GetAttemptsFromContext r
      in if sint attempts > 3 then (ServiceUnavailable, [], s)
         else (case GetNextBackend s of
                 (Inl e, s') \<Rightarrow> (Panicked e, [], s')
               | (Inr None, s') \<Rightarrow> (ServiceUnavailable, [], s')
               | (Inr (Some backend), s') \<Rightarrow> ServeHTTP E fuel k (URL backend) r s'))"
| "ServeHTTP E 0 k u r s = (OutOfFuel, [], s)"
| "ServeHTTP E (Suc fuel) k u r s =
     emit (Dispatch u (GetRetryFromContext r) (GetAttemptsFromContext r))
       (if forward E k u then (Proxied u, [], s)
        else DefaultErrorHandler E fuel (k + 1) u r s)"
| "DefaultErrorHandler E fuel k serverUrl r s =
     (let retries = GetRetryFromContext r
      in if sint retries < 3
         then emit (Backoff 10)
                (let ctx = r(Retry E \<mapsto> IntV retries)
                 in ServeHTTP E fuel k serverUrl ctx s)
         else (let s1 = MarkBackendStatus s serverUrl False;
                   attempts = GetAttemptsFromContext r;
                   ctx = r(Attempts E \<mapsto> IntV (attempts + 1))
               in lb E fuel k ctx s1))"

section \<open>Sequences of pool operations\<close>

text \<open>
  The pool is shared by all requests and by the health checker, so between two calls of
  one request any number of other operations may have run. A \<open>pool_op\<close> names one call
  on the pool; \<open>run_ops\<close> runs a sequence of them, each on the pool the previous one
  left, whether that one returned or panicked. One health-check cycle is given the
  reachability of each address during that cycle.
\<close>

datatype pool_op =
    OpNextIndex
  | OpMarkBackendStatus string bool
  | OpGetNextBackend
  | OpTidy int
  | OpHealthCheck "string \<Rightarrow> bool"

fun apply_op :: "Servers \<Rightarrow> pool_op \<Rightarrow> Servers" where
  "apply_op s OpNextIndex = snd (NextIndex s)"
| "apply_op s (OpMarkBackendStatus u alive) = MarkBackendStatus s u alive"
| "apply_op s OpGetNextBackend = snd (GetNextBackend s)"
| "apply_op s (OpTidy idx) = snd (Tidy s idx)"
| "apply_op s (OpHealthCheck reach) = snd (HealthCheck (\<lambda>i. reach) s)"

fun run_ops :: "Servers \<Rightarrow> pool_op list \<Rightarrow> Servers" where
  "run_ops s [] = s"
| "run_ops s (op # ops) = run_ops (apply_op s op) ops"

text \<open>The operations that can call \<open>SetAlive(true)\<close> on a backend at address \<open>u\<close>.\<close>

fun sets_alive :: "string \<Rightarrow> pool_op \<Rightarrow> bool" where
  "sets_alive u (OpMarkBackendStatus v alive) = (v = u \<and> alive)"
| "sets_alive u (OpHealthCheck reach) = reach u"
| "sets_alive u _ = False"

section \<open>Index expressions and the two scans\<close>

declare AddBackend_loop.simps [simp del]
declare Tidy_loop.simps [simp del]
declare GetNextBackend_scan.simps [simp del]

lemma index_Inr_iff:
  "index xs i = Inr x \<longleftrightarrow> 0 \<le> i \<and> i < int (length xs) \<and> x = xs ! nat i"
  by (auto simp: index_def)

lemma index_Inl_iff:
  "index xs i = Inl e \<longleftrightarrow> \<not> (0 \<le> i \<and> i < int (length xs)) \<and> e = IndexOutOfRange i (length xs)"
  by (auto simp: index_def)

text \<open>When the scan of \<open>GetNextBackend\<close> returns, it returns the lowest alive index.\<close>

lemma scan_Inr:
  "GetNextBackend_scan bs n = Inr i \<Longrightarrow>
     n \<le> i \<and> i < length bs \<and> Alive (bs ! i) \<and> (\<forall>j. n \<le> j \<and> j < i \<longrightarrow> \<not> Alive (bs ! j))"
proof (induction bs n rule: GetNextBackend_scan.induct)
  case (1 bs n)
  show ?case
  proof (cases "index bs (int n)")
    case (Inl e)
    with "1.prems" show ?thesis by (simp add: GetNextBackend_scan.simps [of bs n])
  next
    case (Inr b)
    then have n: "n < length bs" and b: "b = bs ! n" by (auto simp: index_Inr_iff)
    show ?thesis
    proof (cases "IsAlive b")
      case True
      with Inr "1.prems" have "i = n" by (simp add: GetNextBackend_scan.simps [of bs n])
      with True n b show ?thesis by (auto simp: IsAlive_def)
    next
      case False
      with Inr "1.prems" have "GetNextBackend_scan bs (n + 1) = Inr i"
        by (simp add: GetNextBackend_scan.simps [of bs n])
      from "1.IH" [OF Inr False this]
      have ih: "n + 1 \<le> i" "i < length bs" "Alive (bs ! i)"
        "\<forall>j. n + 1 \<le> j \<and> j < i \<longrightarrow> \<not> Alive (bs ! j)" by auto
      have "\<not> Alive (bs ! j)" if "n \<le> j" "j < i" for j
      proof (cases "j = n")
        case True
        with False b show ?thesis by (simp add: IsAlive_def)
      next
        case False
        with that ih(4) show ?thesis by auto
      qed
      with ih show ?thesis by auto
    qed
  qed
qed

text \<open>When no member from \<open>n\<close> on is alive, the scan runs off the end of the slice.\<close>

lemma scan_all_dead:
  "n \<le> length bs \<Longrightarrow> \<forall>j. n \<le> j \<and> j < length bs \<longrightarrow> \<not> Alive (bs ! j) \<Longrightarrow>
     GetNextBackend_scan bs n = Inl (IndexOutOfRange (int (length bs)) (length bs))"
proof (induction bs n rule: GetNextBackend_scan.induct)
  case (1 bs n)
  show ?case
  proof (cases "n < length bs")
    case True
    then have ix: "index bs (int n) = Inr (bs ! n)" by (simp add: index_def)
    from True "1.prems" have dead: "\<not> IsAlive (bs ! n)" by (simp add: IsAlive_def)
    from "1.IH" [OF ix dead] True "1.prems"
    have "GetNextBackend_scan bs (n + 1) = Inl (IndexOutOfRange (int (length bs)) (length bs))"
      by simp
    with ix dead show ?thesis by (simp add: GetNextBackend_scan.simps [of bs n])
  next
    case False
    with "1.prems" have "n = length bs" by simp
    then show ?thesis
      by (simp add: GetNextBackend_scan.simps [of bs "length bs"] index_def)
  qed
qed

text \<open>The sweep of \<open>Tidy\<close> only swaps members, whether it returns or panics.\<close>

lemma Tidy_loop_mset: "mset (snd (Tidy_loop l bs idx)) = mset bs"
proof (induction l bs idx rule: Tidy_loop.induct)
  case (1 l bs idx)
  show ?case
  proof (cases "index bs idx")
    case (Inl e)
    then show ?thesis by (simp add: Tidy_loop.simps [of l bs idx])
  next
    case ix: (Inr x)
    show ?thesis
    proof (cases "index bs (idx + 1)")
      case (Inl e)
      with ix show ?thesis by (simp add: Tidy_loop.simps [of l bs idx])
    next
      case iy: (Inr y)
      show ?thesis
      proof (cases "sint (Free y) < sint (Free x) \<and> idx + 1 < int l")
        case True
        from ix have x: "nat idx < length bs" "x = bs ! nat idx" by (auto simp: index_Inr_iff)
        from iy have y: "nat (idx + 1) < length bs" "y = bs ! nat (idx + 1)"
          by (auto simp: index_Inr_iff)
        have "mset (bs[nat idx := y, nat (idx + 1) := x]) = mset bs"
          unfolding x(2) y(2) using y(1) x(1) by (rule mset_swap)
        with "1.IH" [OF ix iy True] True ix iy show ?thesis
          by (simp add: Tidy_loop.simps [of l bs idx])
      next
        case False
        with ix iy show ?thesis by (auto simp: Tidy_loop.simps [of l bs idx])
      qed
    qed
  qed
qed

section \<open>What the pool operations keep\<close>

lemma Tidy_mset: "mset (backends (snd (Tidy s idx))) = mset (backends s)"
  using Tidy_loop_mset [of "length (backends s)" "backends s" idx]
  by (simp add: Tidy_def Let_def case_prod_beta)

lemma HealthCheck_loop_static:
  "map (\<lambda>b. (URL b, capacity b, flow b)) (snd (HealthCheck_loop dial i bs)) =
   map (\<lambda>b. (URL b, capacity b, flow b)) bs"
  by (induction bs arbitrary: i)
     (simp_all add: isBackendAlive_def SetAlive_def case_prod_beta)

lemma HealthCheck_static:
  "map (\<lambda>b. (URL b, capacity b, flow b)) (backends (snd (HealthCheck dial s))) =
   map (\<lambda>b. (URL b, capacity b, flow b)) (backends s)"
  using HealthCheck_loop_static [of dial 0 "backends s"]
  by (simp add: HealthCheck_def case_prod_beta)

lemma MarkBackendStatus_static:
  "map (\<lambda>b. (URL b, capacity b, flow b)) (backends (MarkBackendStatus s u alive)) =
   map (\<lambda>b. (URL b, capacity b, flow b)) (backends s)"
  by (simp add: MarkBackendStatus_def SetAlive_def)

lemma GetNextBackend_mset: "mset (backends (snd (GetNextBackend s))) = mset (backends s)"
proof (cases "GetNextBackend_scan (backends s) 0")
  case (Inl e)
  then show ?thesis by (simp add: GetNextBackend_def)
next
  case (Inr i)
  define s1 where "s1 = (if i \<noteq> 0 then s\<lparr>current := of_nat i\<rparr> else s)"
  have b1: "backends s1 = backends s" by (simp add: s1_def)
  show ?thesis
  proof (cases "index (backends s1) (int i)")
    case (Inl e)
    with Inr b1 show ?thesis by (simp add: GetNextBackend_def s1_def Let_def)
  next
    case ib: (Inr b)
    have "snd (GetNextBackend s) = snd (Tidy s1 (int i))"
      using Inr ib by (simp add: GetNextBackend_def s1_def Let_def split: prod.splits sum.splits)
    with Tidy_mset [of s1 "int i"] b1 show ?thesis by simp
  qed
qed

text \<open>Whenever \<open>GetNextBackend\<close> returns a backend, it is the alive member of lowest
  index.\<close>

lemma GetNextBackend_Some:
  assumes "fst (GetNextBackend s) = Inr (Some b)"
  shows "\<exists>i < length (backends s). b = backends s ! i \<and> Alive b
           \<and> (\<forall>j < i. \<not> Alive (backends s ! j))"
proof (cases "GetNextBackend_scan (backends s) 0")
  case (Inl e)
  with assms show ?thesis by (simp add: GetNextBackend_def)
next
  case (Inr i)
  from scan_Inr [OF Inr] have i: "i < length (backends s)" "Alive (backends s ! i)"
    "\<forall>j < i. \<not> Alive (backends s ! j)" by auto
  define s1 where "s1 = (if i \<noteq> 0 then s\<lparr>current := of_nat i\<rparr> else s)"
  have b1: "backends s1 = backends s" by (simp add: s1_def)
  with i have ix: "index (backends s1) (int i) = Inr (backends s ! i)" by (simp add: index_def)
  from assms Inr ix have "b = backends s ! i"
    by (auto simp: GetNextBackend_def s1_def Let_def split: prod.splits sum.splits)
  with i show ?thesis by blast
qed

text \<open>On a pool without an alive member the scan leaves the slice: the call panics with
  the index \<open>len(s.backends)\<close> and returns nothing, whatever the pool.\<close>

lemma GetNextBackend_all_dead:
  assumes "\<forall>b \<in> set (backends s). \<not> IsAlive b"
  shows "GetNextBackend s =
           (Inl (IndexOutOfRange (int (length (backends s))) (length (backends s))), s)"
proof -
  from assms have "\<forall>j. 0 \<le> j \<and> j < length (backends s) \<longrightarrow> \<not> Alive (backends s ! j)"
    by (simp add: IsAlive_def)
  then have "GetNextBackend_scan (backends s) 0 =
      Inl (IndexOutOfRange (int (length (backends s))) (length (backends s)))"
    by (intro scan_all_dead) simp_all
  then show ?thesis by (simp add: GetNextBackend_def)
qed

section \<open>Selection\<close>

text \<open>
  C1. For a pool with no alive backend \<open>GetNextBackend\<close> should report not-found, and
  \<open>lb\<close> should answer service-unavailable. The code does neither: on the empty pool the
  first index expression \<open>s.backends[0]\<close> panics, on a pool of two dead backends the scan
  reaches index 2 and panics there, and \<open>lb\<close>, which calls \<open>GetNextBackend\<close> before it
  tests the result against nil, ends in that panic instead of a 503 response.
\<close>

theorem GetNextBackend_no_alive_panics:
  "GetNextBackend \<lparr>backends = [], current = 0\<rparr> =
     (Inl (IndexOutOfRange 0 0), \<lparr>backends = [], current = 0\<rparr>)
   \<and> lb E fuel k Map.empty \<lparr>backends = [], current = 0\<rparr> =
     (Panicked (IndexOutOfRange 0 0), [], \<lparr>backends = [], current = 0\<rparr>)
   \<and> GetNextBackend
       \<lparr>backends = [\<lparr>URL = ''a'', Alive = False, capacity = 0, flow = 0\<rparr>,
                    \<lparr>URL = ''b'', Alive = False, capacity = 0, flow = 0\<rparr>], current = 0\<rparr> =
     (Inl (IndexOutOfRange 2 2),
      \<lparr>backends = [\<lparr>URL = ''a'', Alive = False, capacity = 0, flow = 0\<rparr>,
                   \<lparr>URL = ''b'', Alive = False, capacity = 0, flow = 0\<rparr>], current = 0\<rparr>)"
  by (simp add: GetNextBackend_def GetNextBackend_scan.simps index_def IsAlive_def
      GetAttemptsFromContext_def)

text \<open>
  C2. For a pool with an alive backend \<open>GetNextBackend\<close> should return the alive
  backend of lowest index. On a pool of one alive backend the scan finds index 0, and
  the deferred \<open>Tidy(0)\<close> evaluates \<open>s.backends[1]\<close> before its bound: the call panics
  and returns no backend. On the pool of the spec's scenario, capacities 10 and 5 with
  no load, \<open>Tidy(0)\<close> swaps the two members, steps to index -1 and panics there.
\<close>

theorem GetNextBackend_alive_panics:
  "GetNextBackend
     \<lparr>backends = [\<lparr>URL = ''a'', Alive = True, capacity = 0, flow = 0\<rparr>], current = 0\<rparr> =
     (Inl (IndexOutOfRange 1 1),
      \<lparr>backends = [\<lparr>URL = ''a'', Alive = True, capacity = 0, flow = 0\<rparr>], current = 0\<rparr>)
   \<and> GetNextBackend
       \<lparr>backends = [\<lparr>URL = ''a'', Alive = True, capacity = 10, flow = 0\<rparr>,
                    \<lparr>URL = ''b'', Alive = True, capacity = 5, flow = 0\<rparr>], current = 0\<rparr> =
     (Inl (IndexOutOfRange (- 1) 2),
      \<lparr>backends = [\<lparr>URL = ''b'', Alive = True, capacity = 5, flow = 0\<rparr>,
                   \<lparr>URL = ''a'', Alive = True, capacity = 10, flow = 0\<rparr>], current = 0\<rparr>)"
  by (simp add: GetNextBackend_def GetNextBackend_scan.simps Tidy_def Tidy_loop.simps
      index_def IsAlive_def Free_def)

section \<open>Tidy\<close>

text \<open>
  C5. After \<open>Tidy\<close> has returned, the members it moved should be in descending order of
  free capacity. The sweep swaps when the earlier member has more free capacity than
  the later one, so it leaves them ascending: on free capacities 1, 5, 3 the call
  \<open>Tidy(1)\<close> returns with the pool in the order 1, 3, 5, where the member at index 1 has
  strictly less free capacity than the member at index 2, the two it has just swapped.
\<close>

theorem Tidy_leaves_ascending:
  "Tidy \<lparr>backends = [\<lparr>URL = ''a'', Alive = True, capacity = 1, flow = 0\<rparr>,
                     \<lparr>URL = ''b'', Alive = True, capacity = 5, flow = 0\<rparr>,
                     \<lparr>URL = ''c'', Alive = True, capacity = 3, flow = 0\<rparr>], current = 0\<rparr> 1 =
     (Inr (),
      \<lparr>backends = [\<lparr>URL = ''a'', Alive = True, capacity = 1, flow = 0\<rparr>,
                   \<lparr>URL = ''c'', Alive = True, capacity = 3, flow = 0\<rparr>,
                   \<lparr>URL = ''b'', Alive = True, capacity = 5, flow = 0\<rparr>], current = 0\<rparr>)
   \<and> sint (Free \<lparr>URL = ''c'', Alive = True, capacity = 3, flow = 0\<rparr>) <
       sint (Free \<lparr>URL = ''b'', Alive = True, capacity = 5, flow = 0\<rparr>)"
  by (simp add: Tidy_def Tidy_loop.simps index_def Free_def)

text \<open>
  C6. The sweep of \<open>Tidy\<close> should stop at either end of the list and never index outside
  it. From the last valid index it reads one past the end: on a pool of one member
  \<open>Tidy(0)\<close> panics on \<open>s.backends[1]\<close>. Towards the front nothing stops it: on free
  capacities 5, 3 the call \<open>Tidy(0)\<close> swaps, steps to index -1 and panics on
  \<open>s.backends[-1]\<close>.
\<close>

theorem Tidy_indexes_outside:
  "Tidy \<lparr>backends = [\<lparr>URL = ''a'', Alive = True, capacity = 1, flow = 0\<rparr>], current = 0\<rparr> 0 =
     (Inl (IndexOutOfRange 1 1),
      \<lparr>backends = [\<lparr>URL = ''a'', Alive = True, capacity = 1, flow = 0\<rparr>], current = 0\<rparr>)
   \<and> Tidy \<lparr>backends = [\<lparr>URL = ''a'', Alive = True, capacity = 5, flow = 0\<rparr>,
                       \<lparr>URL = ''b'', Alive = True, capacity = 3, flow = 0\<rparr>], current = 0\<rparr> 0 =
     (Inl (IndexOutOfRange (- 1) 2),
      \<lparr>backends = [\<lparr>URL = ''b'', Alive = True, capacity = 3, flow = 0\<rparr>,
                   \<lparr>URL = ''a'', Alive = True, capacity = 5, flow = 0\<rparr>], current = 0\<rparr>)"
  by (simp add: Tidy_def Tidy_loop.simps index_def Free_def)

section \<open>Membership\<close>

text \<open>
  C10. Every pool operation other than \<open>AddBackend\<close> keeps the members of the pool.
  \<open>GetNextBackend\<close> and \<open>Tidy\<close> leave a permutation of the member list (the same
  multiset of backends, flags included), whether they return or panic.
  \<open>MarkBackendStatus\<close> and \<open>HealthCheck\<close> leave every member at its position with its
  address, capacity and flow: only \<open>Alive\<close> flags can differ. \<open>NextIndex\<close> leaves the
  member list as it is.
\<close>

theorem pool_operations_preserve_members:
  "mset (backends (snd (GetNextBackend s))) = mset (backends s)
   \<and> mset (backends (snd (Tidy s idx))) = mset (backends s)
   \<and> map (\<lambda>b. (URL b, capacity b, flow b)) (backends (MarkBackendStatus s u alive)) =
       map (\<lambda>b. (URL b, capacity b, flow b)) (backends s)
   \<and> map (\<lambda>b. (URL b, capacity b, flow b)) (backends (snd (HealthCheck dial s))) =
       map (\<lambda>b. (URL b, capacity b, flow b)) (backends s)
   \<and> backends (snd (NextIndex s)) = backends s"
proof -
  have "backends (snd (NextIndex s)) = backends s" by (simp add: NextIndex_def Let_def)
  with GetNextBackend_mset [of s] Tidy_mset [of s idx] MarkBackendStatus_static [of s u alive]
    HealthCheck_static [of dial s]
  show ?thesis by (intro conjI) assumption+
qed

section \<open>Registration\<close>

text \<open>The loop of \<open>AddBackend\<close> only swaps members, whether it returns or panics.\<close>

lemma AddBackend_loop_mset: "mset (snd (AddBackend_loop bs idx)) = mset bs"
proof (induction bs idx rule: AddBackend_loop.induct)
  case (1 bs idx)
  show ?case
  proof (cases "index bs idx")
    case (Inl e)
    then show ?thesis by (simp add: AddBackend_loop.simps [of bs idx])
  next
    case ix: (Inr x)
    show ?thesis
    proof (cases "index bs (idx - 1)")
      case (Inl e)
      with ix show ?thesis by (simp add: AddBackend_loop.simps [of bs idx])
    next
      case iy: (Inr y)
      show ?thesis
      proof (cases "sint (capacity y) < sint (capacity x) \<and> idx \<noteq> 0")
        case True
        from ix have x: "nat idx < length bs" "x = bs ! nat idx" by (auto simp: index_Inr_iff)
        from iy have y: "nat (idx - 1) < length bs" "y = bs ! nat (idx - 1)"
          by (auto simp: index_Inr_iff)
        have "mset (bs[nat (idx - 1) := x, nat idx := y]) = mset bs"
          unfolding x(2) y(2) using x(1) y(1) by (rule mset_swap)
        with "1.IH" [OF ix iy True] True ix iy show ?thesis
          by (simp add: AddBackend_loop.simps [of bs idx])
      next
        case False
        with ix iy show ?thesis by (auto simp: AddBackend_loop.simps [of bs idx])
      qed
    qed
  qed
qed

lemma AddBackend_mset:
  "mset (backends (snd (AddBackend s b))) = add_mset b (mset (backends s))"
  using AddBackend_loop_mset [of "backends s @ [b]" "int (length (backends s @ [b]))"]
  by (simp add: AddBackend_def Let_def case_prod_beta)

text \<open>
  C7. After \<open>AddBackend\<close> a lookup of the added address should find the backend, and
  adding an address already in the pool should be rejected or do nothing. No call of
  \<open>AddBackend\<close> returns: \<open>idx\<close> is the length after the append, so the first index
  expression of the ordering loop, \<open>s.backends[idx]\<close>, is one past the end and panics,
  for every pool and every backend; \<open>main\<close> does not recover, so nothing follows the
  call. On the empty pool the panic leaves the backend appended; on a pool that already
  holds the address it leaves two members with that address, since no address is
  compared before the append.
\<close>

theorem AddBackend_panics:
  "fst (AddBackend s b) =
     Inl (IndexOutOfRange (int (length (backends s)) + 1) (length (backends s) + 1))
   \<and> AddBackend \<lparr>backends = [], current = 0\<rparr>
         \<lparr>URL = ''a'', Alive = True, capacity = 0, flow = 0\<rparr> =
       (Inl (IndexOutOfRange 1 1),
        \<lparr>backends = [\<lparr>URL = ''a'', Alive = True, capacity = 0, flow = 0\<rparr>], current = 0\<rparr>)
   \<and> AddBackend
         \<lparr>backends = [\<lparr>URL = ''a'', Alive = True, capacity = 0, flow = 0\<rparr>], current = 0\<rparr>
         \<lparr>URL = ''a'', Alive = True, capacity = 0, flow = 0\<rparr> =
       (Inl (IndexOutOfRange 2 2),
        \<lparr>backends = [\<lparr>URL = ''a'', Alive = True, capacity = 0, flow = 0\<rparr>,
                     \<lparr>URL = ''a'', Alive = True, capacity = 0, flow = 0\<rparr>], current = 0\<rparr>)"
proof -
  have "fst (AddBackend s b) =
      Inl (IndexOutOfRange (int (length (backends s)) + 1) (length (backends s) + 1))"
    by (simp add: AddBackend_def Let_def AddBackend_loop.simps [of "backends s @ [b]"] index_def)
  moreover have "AddBackend \<lparr>backends = [], current = 0\<rparr>
         \<lparr>URL = ''a'', Alive = True, capacity = 0, flow = 0\<rparr> =
       (Inl (IndexOutOfRange 1 1),
        \<lparr>backends = [\<lparr>URL = ''a'', Alive = True, capacity = 0, flow = 0\<rparr>], current = 0\<rparr>)"
    by (simp add: AddBackend_def AddBackend_loop.simps index_def)
  moreover have "AddBackend
         \<lparr>backends = [\<lparr>URL = ''a'', Alive = True, capacity = 0, flow = 0\<rparr>], current = 0\<rparr>
         \<lparr>URL = ''a'', Alive = True, capacity = 0, flow = 0\<rparr> =
       (Inl (IndexOutOfRange 2 2),
        \<lparr>backends = [\<lparr>URL = ''a'', Alive = True, capacity = 0, flow = 0\<rparr>,
                     \<lparr>URL = ''a'', Alive = True, capacity = 0, flow = 0\<rparr>], current = 0\<rparr>)"
    by (simp add: AddBackend_def AddBackend_loop.simps index_def)
  ultimately show ?thesis by (intro conjI) assumption+
qed

section \<open>Liveness\<close>

text \<open>
  The members at address \<open>u\<close> being all dead is kept by every operation that does not
  call \<open>SetAlive(true)\<close> on such a member.
\<close>

lemma MarkBackendStatus_dead:
  assumes "b \<in> set (backends (MarkBackendStatus s u False))" and "URL b = u"
  shows "\<not> Alive b"
proof -
  from assms(1) have "b \<in> (\<lambda>backend. if URL backend = u then SetAlive backend False else backend)
      ` set (backends s)"
    by (simp add: MarkBackendStatus_def)
  then obtain a where b: "b = (if URL a = u then SetAlive a False else a)" by (rule imageE)
  show ?thesis
  proof (cases "URL a = u")
    case True
    with b show ?thesis by (simp add: SetAlive_def)
  next
    case False
    with b assms(2) show ?thesis by simp
  qed
qed

lemma MarkBackendStatus_no_match:
  assumes "v \<notin> set (map URL (backends t))"
  shows "MarkBackendStatus t v alive = t"
proof -
  have "\<And>x. x \<in> set (backends t) \<Longrightarrow>
      (if URL x = v then SetAlive x alive else x) = x"
    using assms by auto
  then have m: "map (\<lambda>backend. if URL backend = v then SetAlive backend alive else backend)
      (backends t) = backends t"
    by (rule map_idI)
  show ?thesis unfolding MarkBackendStatus_def m by simp
qed

lemma HealthCheck_loop_dead:
  assumes "\<not> reach u"
  shows "\<forall>b \<in> set bs. URL b = u \<longrightarrow> \<not> Alive b \<Longrightarrow>
     \<forall>b \<in> set (snd (HealthCheck_loop (\<lambda>i. reach) i bs)). URL b = u \<longrightarrow> \<not> Alive b"
proof (induction bs arbitrary: i)
  case Nil
  then show ?case by simp
next
  case (Cons a bs)
  show ?case
  proof (cases "reach (URL a)")
    case False
    with Cons.prems show ?thesis by (simp add: isBackendAlive_def)
  next
    case True
    with assms have ne: "URL a \<noteq> u" by auto
    from Cons.prems have "\<forall>b \<in> set bs. URL b = u \<longrightarrow> \<not> Alive b" by simp
    from Cons.IH [OF this, of "i + 1"] ne True show ?thesis
      by (simp add: isBackendAlive_def SetAlive_def case_prod_beta)
  qed
qed


lemma apply_op_dead:
  assumes "\<not> sets_alive u op" and "\<forall>b \<in> set (backends s). URL b = u \<longrightarrow> \<not> Alive b"
  shows "\<forall>b \<in> set (backends (apply_op s op)). URL b = u \<longrightarrow> \<not> Alive b"
proof (cases op)
  case OpNextIndex
  have "backends (snd (NextIndex s)) = backends s" by (simp add: NextIndex_def Let_def)
  with assms(2) OpNextIndex show ?thesis by simp
next
  case (OpMarkBackendStatus v alive)
  with assms(1) have va: "v \<noteq> u \<or> \<not> alive" by simp
  have "URL b = u \<longrightarrow> \<not> Alive b" if "b \<in> set (backends (MarkBackendStatus s v alive))" for b
  proof -
    from that obtain a where a: "a \<in> set (backends s)"
      and b: "b = (if URL a = v then SetAlive a alive else a)"
      by (auto simp: MarkBackendStatus_def)
    from a assms(2) have "URL a = u \<longrightarrow> \<not> Alive a" by blast
    with b va show ?thesis by (cases "URL a = v") (auto simp: SetAlive_def)
  qed
  with OpMarkBackendStatus show ?thesis by simp
next
  case OpGetNextBackend
  have "set (backends (snd (GetNextBackend s))) = set (backends s)"
    using GetNextBackend_mset [of s] by (rule mset_eq_setD)
  with assms(2) OpGetNextBackend show ?thesis by simp
next
  case (OpTidy idx)
  have "set (backends (snd (Tidy s idx))) = set (backends s)"
    using Tidy_mset [of s idx] by (rule mset_eq_setD)
  with assms(2) OpTidy show ?thesis by simp
next
  case (OpHealthCheck reach)
  with assms(1) have "\<not> reach u" by simp
  from HealthCheck_loop_dead [where reach = reach and u = u and bs = "backends s" and i = 0,
      OF this assms(2)]
  have "\<forall>b \<in> set (backends (snd (HealthCheck (\<lambda>i. reach) s))). URL b = u \<longrightarrow> \<not> Alive b"
    by (simp add: HealthCheck_def case_prod_beta)
  with OpHealthCheck show ?thesis by simp
qed

lemma run_ops_dead:
  assumes "\<forall>op \<in> set ops. \<not> sets_alive u op"
    and "\<forall>b \<in> set (backends s). URL b = u \<longrightarrow> \<not> Alive b"
  shows "\<forall>b \<in> set (backends (run_ops s ops)). URL b = u \<longrightarrow> \<not> Alive b"
  using assms
proof (induction ops arbitrary: s)
  case Nil
  then show ?case by simp
next
  case (Cons op ops)
  from Cons.prems(1) have h: "\<not> sets_alive u op" and t: "\<forall>op \<in> set ops. \<not> sets_alive u op"
    by simp_all
  have 1: "\<forall>b \<in> set (backends (apply_op s op)). URL b = u \<longrightarrow> \<not> Alive b"
    using apply_op_dead [where u = u and op = op and s = s, OF h Cons.prems(2)] .
  have 2: "\<forall>b \<in> set (backends (run_ops (apply_op s op) ops)). URL b = u \<longrightarrow> \<not> Alive b"
    using Cons.IH [where s = "apply_op s op", OF t 1] .
  then show ?case by simp
qed



text \<open>
  C8. After \<open>MarkBackendStatus(u, false)\<close> no backend at address \<open>u\<close> is returned by
  \<open>GetNextBackend\<close>, however many pool operations run in between, as long as none of
  them calls \<open>SetAlive(true)\<close> on a backend at \<open>u\<close> (a \<open>MarkBackendStatus(u, true)\<close>,
  or a health check that reaches \<open>u\<close>). And \<open>MarkBackendStatus\<close> with an address \<open>v\<close>
  that no member of the pool has leaves the pool as it is and cannot fail.
\<close>

theorem marked_dead_not_selected:
  assumes "\<forall>op \<in> set ops. \<not> sets_alive u op"
    and "fst (GetNextBackend (run_ops (MarkBackendStatus s u False) ops)) = Inr (Some b)"
    and "v \<notin> set (map URL (backends t))"
  shows "URL b \<noteq> u \<and> MarkBackendStatus t v alive = t"
proof -
  let ?s = "run_ops (MarkBackendStatus s u False) ops"
  have "\<forall>b \<in> set (backends (MarkBackendStatus s u False)). URL b = u \<longrightarrow> \<not> Alive b"
    using MarkBackendStatus_dead [where s = s and u = u] by blast
  with assms(1) have dead: "\<forall>b \<in> set (backends ?s). URL b = u \<longrightarrow> \<not> Alive b"
    by (rule run_ops_dead)
  from GetNextBackend_Some [OF assms(2)]
  obtain i where "i < length (backends ?s)" "b = backends ?s ! i" "Alive b" by blast
  then have "b \<in> set (backends ?s)" "Alive b" by simp_all
  with dead have "URL b \<noteq> u" by blast
  moreover have "MarkBackendStatus t v alive = t"
    using assms(3) by (rule MarkBackendStatus_no_match)
  ultimately show ?thesis by simp
qed

theorem marked_dead_not_selected_witness:
  "list_all (\<lambda>op. \<not> sets_alive ''a'' op) [OpMarkBackendStatus ''b'' False, OpGetNextBackend,
        OpHealthCheck (\<lambda>u. u \<noteq> ''a''), OpNextIndex, OpTidy 0]
   \<and> fst (GetNextBackend (run_ops (MarkBackendStatus
        \<lparr>backends = [\<lparr>URL = ''b'', Alive = True, capacity = 0, flow = 0\<rparr>,
                     \<lparr>URL = ''a'', Alive = True, capacity = 0, flow = 0\<rparr>,
                     \<lparr>URL = ''c'', Alive = True, capacity = 0, flow = 0\<rparr>], current = 0\<rparr>
        ''a'' False)
        [OpMarkBackendStatus ''b'' False, OpGetNextBackend,
         OpHealthCheck (\<lambda>u. u \<noteq> ''a''), OpNextIndex, OpTidy 0]))
      = Inr (Some \<lparr>URL = ''b'', Alive = True, capacity = 0, flow = 0\<rparr>)
   \<and> ''z'' \<notin> set (map URL (backends
        \<lparr>backends = [\<lparr>URL = ''b'', Alive = True, capacity = 0, flow = 0\<rparr>], current = 0\<rparr>))
   \<and> URL \<lparr>URL = ''b'', Alive = True, capacity = 0, flow = 0\<rparr> \<noteq> ''a''
   \<and> MarkBackendStatus
        \<lparr>backends = [\<lparr>URL = ''b'', Alive = True, capacity = 0, flow = 0\<rparr>], current = 0\<rparr>
        ''z'' True
      = \<lparr>backends = [\<lparr>URL = ''b'', Alive = True, capacity = 0, flow = 0\<rparr>], current = 0\<rparr>"
proof -
  have h1: "\<forall>op \<in> set [OpMarkBackendStatus ''b'' False, OpGetNextBackend,
        OpHealthCheck (\<lambda>u. u \<noteq> ''a''), OpNextIndex, OpTidy 0]. \<not> sets_alive ''a'' op"
    by simp
  have h2: "fst (GetNextBackend (run_ops (MarkBackendStatus
        \<lparr>backends = [\<lparr>URL = ''b'', Alive = True, capacity = 0, flow = 0\<rparr>,
                     \<lparr>URL = ''a'', Alive = True, capacity = 0, flow = 0\<rparr>,
                     \<lparr>URL = ''c'', Alive = True, capacity = 0, flow = 0\<rparr>], current = 0\<rparr>
        ''a'' False)
        [OpMarkBackendStatus ''b'' False, OpGetNextBackend,
         OpHealthCheck (\<lambda>u. u \<noteq> ''a''), OpNextIndex, OpTidy 0]))
      = Inr (Some \<lparr>URL = ''b'', Alive = True, capacity = 0, flow = 0\<rparr>)"
    by (simp add: MarkBackendStatus_def SetAlive_def IsAlive_def Free_def index_def
        GetNextBackend_def GetNextBackend_scan.simps Tidy_def Tidy_loop.simps
        HealthCheck_def isBackendAlive_def NextIndex_def)
  have h3: "''z'' \<notin> set (map URL (backends
        \<lparr>backends = [\<lparr>URL = ''b'', Alive = True, capacity = 0, flow = 0\<rparr>], current = 0\<rparr>))"
    by simp
  have h1': "list_all (\<lambda>op. \<not> sets_alive ''a'' op) [OpMarkBackendStatus ''b'' False,
        OpGetNextBackend, OpHealthCheck (\<lambda>u. u \<noteq> ''a''), OpNextIndex, OpTidy 0]"
    by simp
  have c: "URL \<lparr>URL = ''b'', Alive = True, capacity = 0, flow = 0\<rparr> \<noteq> ''a''
      \<and> MarkBackendStatus
            \<lparr>backends = [\<lparr>URL = ''b'', Alive = True, capacity = 0, flow = 0\<rparr>], current = 0\<rparr>
            ''z'' True
          = \<lparr>backends = [\<lparr>URL = ''b'', Alive = True, capacity = 0, flow = 0\<rparr>], current = 0\<rparr>"
    using h1 h2 h3 by (rule marked_dead_not_selected)
  show ?thesis
    using h1' h2 h3 conjunct1 [OF c] conjunct2 [OF c] by (intro conjI) assumption+
qed

section \<open>Attempts and retries of a request\<close>

text \<open>
  C9. At the entry of \<open>lb\<close> a request whose attempts counter is above 3 is answered
  service-unavailable at once: no backend is selected, nothing is forwarded, and the
  pool is left as it was. A request whose context holds no value under
  \<open>"Attempts"\<close> counts as a request at attempt 1.
\<close>

theorem lb_attempts_limit:
  assumes "3 < sint (GetAttemptsFromContext r)" and "r' (StrKey ''Attempts'') = None"
  shows "lb E fuel k r s = (ServiceUnavailable, [], s) \<and> GetAttemptsFromContext r' = 1"
  using assms by (simp add: GetAttemptsFromContext_def)

theorem lb_attempts_limit_witness:
  "3 < sint (GetAttemptsFromContext [StrKey ''Attempts'' \<mapsto> IntV 4])
   \<and> (Map.empty :: ctx) (StrKey ''Attempts'') = None
   \<and> lb \<lparr>Retry = StrKey ''Retry'', Attempts = StrKey ''Attempts'', forward = (\<lambda>k u. True)\<rparr>
        5 0 [StrKey ''Attempts'' \<mapsto> IntV 4]
        \<lparr>backends = [\<lparr>URL = ''a'', Alive = True, capacity = 0, flow = 0\<rparr>,
                     \<lparr>URL = ''b'', Alive = True, capacity = 0, flow = 0\<rparr>], current = 0\<rparr>
      = (ServiceUnavailable, [],
         \<lparr>backends = [\<lparr>URL = ''a'', Alive = True, capacity = 0, flow = 0\<rparr>,
                      \<lparr>URL = ''b'', Alive = True, capacity = 0, flow = 0\<rparr>], current = 0\<rparr>)
   \<and> GetAttemptsFromContext Map.empty = 1"
proof -
  have h1: "3 < sint (GetAttemptsFromContext [StrKey ''Attempts'' \<mapsto> IntV 4])"
    by (simp add: GetAttemptsFromContext_def)
  have h2: "(Map.empty :: ctx) (StrKey ''Attempts'') = None" by simp
  have c: "lb \<lparr>Retry = StrKey ''Retry'', Attempts = StrKey ''Attempts'', forward = (\<lambda>k u. True)\<rparr>
        5 0 [StrKey ''Attempts'' \<mapsto> IntV 4]
        \<lparr>backends = [\<lparr>URL = ''a'', Alive = True, capacity = 0, flow = 0\<rparr>,
                     \<lparr>URL = ''b'', Alive = True, capacity = 0, flow = 0\<rparr>], current = 0\<rparr>
      = (ServiceUnavailable, [],
         \<lparr>backends = [\<lparr>URL = ''a'', Alive = True, capacity = 0, flow = 0\<rparr>,
                      \<lparr>URL = ''b'', Alive = True, capacity = 0, flow = 0\<rparr>], current = 0\<rparr>)
      \<and> GetAttemptsFromContext Map.empty = 1"
    using h1 h2 by (rule lb_attempts_limit)
  show ?thesis
    using h1 h2 conjunct1 [OF c] conjunct2 [OF c] by (intro conjI) assumption+
qed


text \<open>
  The error handler stores, under its retry key, the count it has just read. Whatever
  that key is, the request it forwards again carries the same retry count as before.
\<close>

lemma GetRetry_stored:
  "GetRetryFromContext (r(rk \<mapsto> IntV (GetRetryFromContext r))) = GetRetryFromContext r"
  by (simp add: GetRetryFromContext_def)

lemma emit_fst: "fst (emit ev res) = fst res"
  by (simp add: emit_def case_prod_beta)

lemma emit_dispatches_Dispatch:
  "dispatches (fst (snd (emit (Dispatch u a b) res))) = Suc (dispatches (fst (snd res)))"
  by (simp add: emit_def case_prod_beta)

lemma emit_dispatches_Backoff:
  "dispatches (fst (snd (emit (Backoff ms) res))) = dispatches (fst (snd res))"
  by (simp add: emit_def case_prod_beta)

lemma emit_state: "snd (snd (emit ev res)) = snd (snd res)"
  by (simp add: emit_def case_prod_beta)


lemma ServeHTTP_retries_forever:
  assumes "\<forall>k u. \<not> forward E k u" and "sint (GetRetryFromContext r) < 3"
  shows "fst (ServeHTTP E fuel k u r s) = OutOfFuel
       \<and> dispatches (fst (snd (ServeHTTP E fuel k u r s))) = fuel
       \<and> snd (snd (ServeHTTP E fuel k u r s)) = s"
  using assms(2)
proof (induction fuel arbitrary: k r)
  case 0
  show ?case by simp
next
  case (Suc fuel)
  let ?r' = "r(Retry E \<mapsto> IntV (GetRetryFromContext r))"
  let ?next = "ServeHTTP E fuel (k + 1) u ?r' s"
  have r': "sint (GetRetryFromContext ?r') < 3"
    using Suc.prems by (simp only: GetRetry_stored)
  have "fst ?next = OutOfFuel \<and> dispatches (fst (snd ?next)) = fuel \<and> snd (snd ?next) = s"
    using r' by (rule Suc.IH)
  then have ih: "fst ?next = OutOfFuel" "dispatches (fst (snd ?next)) = fuel" "snd (snd ?next) = s"
    by blast+
  have step: "ServeHTTP E (Suc fuel) k u r s =
      emit (Dispatch u (GetRetryFromContext r) (GetAttemptsFromContext r))
        (emit (Backoff 10) ?next)"
    using assms(1) Suc.prems by (simp add: Let_def)
  show ?case
    unfolding step
    by (simp only: emit_fst emit_state emit_dispatches_Dispatch emit_dispatches_Backoff ih)
qed


text \<open>
  C3. A request whose forwardings all fail should be retried 3 times per backend, fail
  over across at most 3 backends and end as service-unavailable after at most 12
  forwardings. On a pool of two alive backends and a request with an empty context, the
  retry count stays 0, the handler forwards to the first backend again and again, and
  the request never ends: with any number \<open>fuel\<close> of forwardings allowed, the run makes
  all of them (13 and more, for a fuel above 12) and is still not finished, whatever
  keys the handler stores its counters under.
\<close>

theorem retries_never_exhausted:
  "fst (lb \<lparr>Retry = rk, Attempts = ak, forward = (\<lambda>k u. False)\<rparr> fuel 0 Map.empty
        \<lparr>backends = [\<lparr>URL = ''a'', Alive = True, capacity = 0, flow = 0\<rparr>,
                     \<lparr>URL = ''b'', Alive = True, capacity = 0, flow = 0\<rparr>], current = 0\<rparr>)
     = OutOfFuel
   \<and> dispatches (fst (snd (lb \<lparr>Retry = rk, Attempts = ak, forward = (\<lambda>k u. False)\<rparr> fuel 0
        Map.empty
        \<lparr>backends = [\<lparr>URL = ''a'', Alive = True, capacity = 0, flow = 0\<rparr>,
                     \<lparr>URL = ''b'', Alive = True, capacity = 0, flow = 0\<rparr>], current = 0\<rparr>)))
     = fuel"
proof -
  let ?E = "\<lparr>Retry = rk, Attempts = ak, forward = (\<lambda>k u. False)\<rparr>"
  let ?P = "\<lparr>backends = [\<lparr>URL = ''a'', Alive = True, capacity = 0, flow = 0\<rparr>,
                     \<lparr>URL = ''b'', Alive = True, capacity = 0, flow = 0\<rparr>], current = 0\<rparr>"
  have sel: "GetNextBackend ?P =
      (Inr (Some \<lparr>URL = ''a'', Alive = True, capacity = 0, flow = 0\<rparr>), ?P)"
    by (simp add: GetNextBackend_def GetNextBackend_scan.simps Tidy_def Tidy_loop.simps
        index_def IsAlive_def Free_def)
  have a: "\<not> 3 < sint (GetAttemptsFromContext Map.empty)"
    by (simp add: GetAttemptsFromContext_def)
  have lb: "lb ?E fuel 0 Map.empty ?P = ServeHTTP ?E fuel 0 ''a'' Map.empty ?P"
    using a by (simp add: sel)
  have f: "\<forall>k u. \<not> forward ?E k u" by simp
  have r: "sint (GetRetryFromContext Map.empty) < 3" by (simp add: GetRetryFromContext_def)
  from ServeHTTP_retries_forever [OF f r, of fuel 0 "''a''" ?P] show ?thesis
    unfolding lb by simp
qed


text \<open>
  C4. On a failure with fewer than 3 retries the handler should wait 10ms, increment the
  retry count of the request and forward it to the same backend. It waits and forwards
  to the same backend, but the count is stored as it was read: entered with no retry
  value, the handler forwards the request twice with retry count 0 (the second and
  third components of \<open>Dispatch\<close> are the retries and attempts the forwarded request
  carries), where the claim has 1 and then 2.
\<close>

theorem retry_count_not_incremented:
  "DefaultErrorHandler
     \<lparr>Retry = StrKey ''Retry'', Attempts = StrKey ''Attempts'', forward = (\<lambda>k u. False)\<rparr>
     (Suc (Suc 0)) 1 ''a'' Map.empty
     \<lparr>backends = [\<lparr>URL = ''a'', Alive = True, capacity = 0, flow = 0\<rparr>,
                  \<lparr>URL = ''b'', Alive = True, capacity = 0, flow = 0\<rparr>], current = 0\<rparr>
   = (OutOfFuel,
      [Backoff 10, Dispatch ''a'' 0 1, Backoff 10, Dispatch ''a'' 0 1, Backoff 10],
      \<lparr>backends = [\<lparr>URL = ''a'', Alive = True, capacity = 0, flow = 0\<rparr>,
                   \<lparr>URL = ''b'', Alive = True, capacity = 0, flow = 0\<rparr>], current = 0\<rparr>)
   \<and> GetRetryFromContext (r(Retry E \<mapsto> IntV (GetRetryFromContext r))) = GetRetryFromContext r"
  by (simp add: GetRetryFromContext_def GetAttemptsFromContext_def emit_def Let_def)

end
